theory Spec2Isabelle
  imports Main
begin

section \<open>Data model\<close>

text \<open>
  The core of \<^verbatim>\<open>src/main.py\<close> is the class \<^verbatim>\<open>ImageSteganography\<close>. It works on
  images that were opened with \<^verbatim>\<open>Image.open(path).convert('RGB')\<close>: every pixel is a
  tuple of three Python integers. A pixel is modelled as a triple of \<open>int\<close> (Python's
  unbounded integers), an image as its size and its pixels in row-major order, which is
  the order of \<^verbatim>\<open>img.getdata()\<close>.

  A message is a Python \<^verbatim>\<open>str\<close>; it is modelled as the list of its code points
  (\<^verbatim>\<open>ord(char)\<close> of each character), so that code points above 255 exist in the model
  as they do in Python.
\<close>

type_synonym pixel = "int \<times> int \<times> int"

record image =
  width :: nat
  height :: nat
  pixels :: "pixel list"

type_synonym message = "nat list"

text \<open>Every \<^verbatim>\<open>raise Exception(...)\<close> of the class, and the \<^verbatim>\<open>IndexError\<close> of
  \<^verbatim>\<open>putpixel\<close> outside the image.\<close>

datatype error =
    FillInAllFields
  | InputImageNotFound
  | ImageTooSmall nat nat
  | TooSmallToEncode
  | TooSmallForMessage
  | IndexError
  | SelectImageFile
  | ImageFileNotFound
  | NoHiddenMessage

text \<open>An image as \<^verbatim>\<open>convert('RGB')\<close> delivers it: \<open>width * height\<close> pixels, every
  channel an 8-bit value.\<close>

definition valid_channel :: "int \<Rightarrow> bool" where
  "valid_channel v = (0 \<le> v \<and> v \<le> 255)"

fun valid_pixel :: "pixel \<Rightarrow> bool" where
  "valid_pixel (r, g, b) = (valid_channel r \<and> valid_channel g \<and> valid_channel b)"

definition valid_image :: "image \<Rightarrow> bool" where
  "valid_image img =
     (length (pixels img) = width img * height img \<and> list_all valid_pixel (pixels img))"

section \<open>The bit codec\<close>

text \<open>
  \<^verbatim>\<open>format(ord(char), '08b')\<close>: the binary digits of the code, most significant first,
  padded with zeros on the left to at least eight characters. A code above 255 gives
  more than eight characters.
\<close>

definition bit_char :: "nat \<Rightarrow> char" where
  "bit_char d = (if d = 0 then CHR ''0'' else CHR ''1'')"

fun bin_digits :: "nat \<Rightarrow> string" where
  "bin_digits n =
     (if n < 2 then [bit_char n] else bin_digits (n div 2) @ [bit_char (n mod 2)])"

declare bin_digits.simps [simp del]

definition format_08b :: "nat \<Rightarrow> string" where
  "format_08b n = replicate (8 - length (bin_digits n)) (CHR ''0'') @ bin_digits n"

text \<open>
  Lines 44 to 49: the write of one bit into one channel value.
  \<^verbatim>\<open>
  if data_in_binary[i][j] == '1':
      if pixel_set[j] % 2 == 0:
          pixel_set[j] += 1 if pixel_set[j] < 255 else -1
  else:
      if pixel_set[j] % 2 == 1:
          pixel_set[j] -= 1 if pixel_set[j] > 0 else -1
  \<close>
\<close>

definition write_bit :: "int \<Rightarrow> char \<Rightarrow> int" where
  "write_bit v c =
     (if c = CHR ''1''
      then (if v mod 2 = 0 then v + (if v < 255 then 1 else - 1) else v)
      else (if v mod 2 = 1 then v - (if 0 < v then 1 else - 1) else v))"

text \<open>Line 132: \<^verbatim>\<open>str(pixel_set[i] % 2)\<close>. Python's \<^verbatim>\<open>%\<close> with a positive modulus
  is the floored remainder, as \<open>mod\<close> on \<open>int\<close> is.\<close>

definition read_bit :: "int \<Rightarrow> int" where
  "read_bit v = v mod 2"

definition str_bit :: "int \<Rightarrow> string" where
  "str_bit b = (if b = 0 then ''0'' else ''1'')"

section \<open>The encoder\<close>

text \<open>\<^verbatim>\<open>pixel[:3]\<close> of an RGB pixel, and \<^verbatim>\<open>tuple(...)\<close> of a slice of three values.\<close>

fun rgb :: "pixel \<Rightarrow> int list" where
  "rgb (r, g, b) = [r, g, b]"

definition tuple3 :: "int list \<Rightarrow> pixel" where
  "tuple3 vs = (vs ! 0, vs ! 1, vs ! 2)"

text \<open>
  Lines 24 to 29: the terminator \<^verbatim>\<open>chr(0)\<close> is appended to the text, and every character
  becomes its binary string.
\<close>

definition data_in_binary :: "message \<Rightarrow> string list" where
  "data_in_binary data = map format_08b (data @ [0])"

text \<open>
  \<^verbatim>\<open>image_data = iter(pixels)\<close> walks the pixel sequence by index; \<^verbatim>\<open>next\<close> returns the
  pixel under the index and advances, or raises \<^verbatim>\<open>StopIteration\<close> (here \<open>None\<close>) at
  the end. The sequence is the image's own storage, so a read sees what was written
  before it: the iterator is an index into the current pixels, not a copy of them.
\<close>

definition next_pixel :: "pixel list \<Rightarrow> nat \<Rightarrow> (pixel \<times> nat) option" where
  "next_pixel ps k = (if k < length ps then Some (ps ! k, Suc k) else None)"

text \<open>Lines 37 to 40: three calls of \<^verbatim>\<open>next\<close>, the nine channel values collected.\<close>

definition read_pixel_set :: "pixel list \<Rightarrow> nat \<Rightarrow> (int list \<times> nat) option" where
  "read_pixel_set ps k =
     (case next_pixel ps k of
        None \<Rightarrow> None
      | Some (p1, k1) \<Rightarrow>
          (case next_pixel ps k1 of
             None \<Rightarrow> None
           | Some (p2, k2) \<Rightarrow>
               (case next_pixel ps k2 of
                  None \<Rightarrow> None
                | Some (p3, k3) \<Rightarrow> Some (rgb p1 @ rgb p2 @ rgb p3, k3))))"

text \<open>
  Lines 43 to 49: \<^verbatim>\<open>for j in range(8)\<close>, the bit \<open>j\<close> written into value \<open>j\<close>. The
  nine values of three RGB pixels and the eight or more characters of a binary string
  keep every index in range.
\<close>

definition modify_set :: "int list \<Rightarrow> string \<Rightarrow> int list" where
  "modify_set pixel_set bits =
     fold (\<lambda>j ps. ps[j := write_bit (ps ! j) (bits ! j)]) [0..<8] pixel_set"

text \<open>
  \<^verbatim>\<open>img.putpixel((x, y), pixel)\<close>: the pixel at column \<open>x\<close> of row \<open>y\<close> is replaced;
  a position outside the image raises \<^verbatim>\<open>IndexError\<close>.
\<close>

definition putpixel :: "image \<Rightarrow> nat \<times> nat \<Rightarrow> pixel \<Rightarrow> error + image" where
  "putpixel img xy p =
     (case xy of (x, y) \<Rightarrow>
        if x < width img \<and> y < height img
        then Inr (img\<lparr>pixels := (pixels img)[y * width img + x := p]\<rparr>)
        else Inl IndexError)"

text \<open>
  Lines 66 to 74, the body of the loop of \<^verbatim>\<open>encrypt_image\<close> for one pixel that the
  generator yields: the test of \<open>y\<close>, the write, the step to the next position.
\<close>

definition put_step :: "image \<Rightarrow> nat \<times> nat \<Rightarrow> pixel \<Rightarrow> error + (image \<times> nat \<times> nat)" where
  "put_step img xy p =
     (case xy of (x, y) \<Rightarrow>
        if height img \<le> y then Inl TooSmallForMessage
        else (case putpixel img (x, y) p of
                Inl e \<Rightarrow> Inl e
              | Inr img' \<Rightarrow>
                  if width img \<le> x + 1 then Inr (img', 0, y + 1)
                  else Inr (img', x + 1, y)))"

text \<open>
  The generator \<^verbatim>\<open>generate_data\<close> run by the loop of \<^verbatim>\<open>encrypt_image\<close>. For each binary
  string the generator reads three pixels at the iterator's index \<open>k\<close>
  (\<^verbatim>\<open>StopIteration\<close> becomes the exception of line 57), rewrites the first eight values,
  and yields three pixels; the loop stores each of them before the generator goes on.
  The state is the iterator's index, the write position and the image.
\<close>

fun encrypt_loop :: "string list \<Rightarrow> nat \<Rightarrow> nat \<times> nat \<Rightarrow> image \<Rightarrow> error + image" where
  "encrypt_loop [] k xy img = Inr img"
| "encrypt_loop (bits # rest) k xy img =
     (case read_pixel_set (pixels img) k of
        None \<Rightarrow> Inl TooSmallToEncode
      | Some (pixel_set, k') \<Rightarrow>
          (let ps = modify_set pixel_set bits in
           case put_step img xy (tuple3 (take 3 ps)) of
             Inl e \<Rightarrow> Inl e
           | Inr (img1, xy1) \<Rightarrow>
               (case put_step img1 xy1 (tuple3 (take 3 (drop 3 ps))) of
                  Inl e \<Rightarrow> Inl e
                | Inr (img2, xy2) \<Rightarrow>
                    (case put_step img2 xy2 (tuple3 (take 3 (drop 6 ps))) of
                       Inl e \<Rightarrow> Inl e
                     | Inr (img3, xy3) \<Rightarrow> encrypt_loop rest k' xy3 img3))))"

text \<open>\<^verbatim>\<open>encrypt_image(img, data)\<close>; the result is the image as the calls of
  \<^verbatim>\<open>putpixel\<close> left it (Python returns \<^verbatim>\<open>True\<close> and has changed \<^verbatim>\<open>img\<close> in place).\<close>

definition encrypt_image :: "image \<Rightarrow> message \<Rightarrow> error + image" where
  "encrypt_image img data = encrypt_loop (data_in_binary data) 0 (0, 0) img"

text \<open>
  Lines 90 to 95 of \<^verbatim>\<open>encode_message\<close>: the capacity check on the size of the image and
  the length of the text. The exception carries both numbers of its message.
\<close>

definition capacity_check :: "nat \<Rightarrow> nat \<Rightarrow> nat \<Rightarrow> error + unit" where
  "capacity_check w h l =
     (let min_pixels_needed = (l + 1) * 3;
          total_pixels = w * h
      in if total_pixels < min_pixels_needed
         then Inl (ImageTooSmall min_pixels_needed total_pixels)
         else Inr ())"

text \<open>
  \<^verbatim>\<open>encode_message(img_path, text, output_path)\<close>. The file system is a map from paths to
  the RGB images that \<^verbatim>\<open>Image.open(path).convert('RGB')\<close> gives; \<^verbatim>\<open>os.path.exists\<close> is
  membership in its domain. The result is the path the image is saved under and the
  saved image. \<^verbatim>\<open>output_path.lower().endswith('.png')\<close> is modelled on ASCII letters.
\<close>

definition lower_char :: "char \<Rightarrow> char" where
  "lower_char c =
     (let n = (of_char c :: nat) in if 65 \<le> n \<and> n \<le> 90 then char_of (n + 32) else c)"

definition endswith :: "string \<Rightarrow> string \<Rightarrow> bool" where
  "endswith s suffix =
     (length suffix \<le> length s \<and> drop (length s - length suffix) s = suffix)"

definition encode_message ::
  "(string \<rightharpoonup> image) \<Rightarrow> string \<Rightarrow> message \<Rightarrow> string \<Rightarrow> error + (string \<times> image)" where
  "encode_message fs img_path text output_path =
     (if img_path = [] \<or> text = [] \<or> output_path = [] then Inl FillInAllFields
      else (case fs img_path of
              None \<Rightarrow> Inl InputImageNotFound
            | Some img \<Rightarrow>
                (case capacity_check (width img) (height img) (length text) of
                   Inl e \<Rightarrow> Inl e
                 | Inr _ \<Rightarrow>
                     (case encrypt_image img text of
                        Inl e \<Rightarrow> Inl e
                      | Inr new_image \<Rightarrow>
                          Inr (if endswith (map lower_char output_path) ''.png''
                               then output_path else output_path @ ''.png'',
                               new_image)))))"

section \<open>The decoder\<close>

text \<open>
  \<^verbatim>\<open>int(binary_string, 2)\<close> on a string of binary digits, most significant first;
  \<open>None\<close> is Python's \<^verbatim>\<open>ValueError\<close>. The decoder only builds strings of the digits that
  \<^verbatim>\<open>str(v % 2)\<close> gives, so signs, blanks and prefixes, which Python also accepts, are
  left out.
\<close>

fun int_base2_from :: "nat \<Rightarrow> string \<Rightarrow> nat option" where
  "int_base2_from acc [] = Some acc"
| "int_base2_from acc (c # cs) =
     (if c = CHR ''0'' then int_base2_from (2 * acc) cs
      else if c = CHR ''1'' then int_base2_from (2 * acc + 1) cs
      else None)"

definition int_base2 :: "string \<Rightarrow> nat option" where
  "int_base2 s = (if s = [] then None else int_base2_from 0 s)"

text \<open>Lines 130 to 132: the parities of the first eight values, as a string.\<close>

definition binary_string :: "int list \<Rightarrow> string" where
  "binary_string pixel_set = concat (map (\<lambda>i. str_bit (read_bit (pixel_set ! i))) [0..<8])"

text \<open>
  The loop of \<^verbatim>\<open>decode_message\<close>, lines 121 to 144. The image is only read, so the
  iterator is the list of the pixels not yet consumed. With fewer than three pixels
  left \<^verbatim>\<open>next\<close> raises \<^verbatim>\<open>StopIteration\<close> and the \<^verbatim>\<open>except\<close> clause leaves the loop, as
  it does on a \<^verbatim>\<open>ValueError\<close>; a character of code 0 leaves it too. The second component
  of the result tells which \<^verbatim>\<open>break\<close> left the loop: the one of line 139 (\<open>Terminator\<close>)
  or the one of line 144 (\<open>Exhausted\<close>). By \<open>int_base2_binary_string\<close> below the
  \<^verbatim>\<open>ValueError\<close> never occurs, so line 144 is reached on exhaustion only.
\<close>

datatype stop = Terminator | Exhausted

fun decode_loop :: "pixel list \<Rightarrow> message \<Rightarrow> message \<times> stop" where
  "decode_loop (p1 # p2 # p3 # rest) data =
     (case int_base2 (binary_string (rgb p1 @ rgb p2 @ rgb p3)) of
        None \<Rightarrow> (data, Exhausted)
      | Some code \<Rightarrow>
          if code = 0 then (data, Terminator)
          else decode_loop rest (data @ [code]))"
| "decode_loop _ data = (data, Exhausted)"

text \<open>Lines 118 to 149, on the opened image: the loop, then the test \<^verbatim>\<open>if not data\<close>.\<close>

definition decode_pixels :: "image \<Rightarrow> error + message" where
  "decode_pixels img =
     (let data = fst (decode_loop (pixels img) [])
      in if data = [] then Inl NoHiddenMessage else Inr data)"

text \<open>\<^verbatim>\<open>decode_message(img_path)\<close>, with the file system as in \<open>encode_message\<close>.\<close>

definition decode_message :: "(string \<rightharpoonup> image) \<Rightarrow> string \<Rightarrow> error + message" where
  "decode_message fs img_path =
     (if img_path = [] then Inl SelectImageFile
      else (case fs img_path of
              None \<Rightarrow> Inl ImageFileNotFound
            | Some img \<Rightarrow> decode_pixels img))"

section \<open>Auxiliary definitions\<close>

text \<open>
  What one turn of the generator yields for three pixels, and the pixel sequence that
  the whole run leaves behind when it is applied to a list of pixels group by group.
  They are not part of the program: the lemmas below show that \<open>encrypt_loop\<close>, with
  its index, its position and its writes through \<open>putpixel\<close>, produces exactly this
  sequence.
\<close>

definition encode_group :: "string \<Rightarrow> pixel \<Rightarrow> pixel \<Rightarrow> pixel \<Rightarrow> pixel list" where
  "encode_group bits p1 p2 p3 =
     (let ps = modify_set (rgb p1 @ rgb p2 @ rgb p3) bits
      in [tuple3 (take 3 ps), tuple3 (take 3 (drop 3 ps)), tuple3 (take 3 (drop 6 ps))])"


fun written_pixels :: "string list \<Rightarrow> pixel list \<Rightarrow> pixel list" where
  "written_pixels (bits # rest) (p1 # p2 # p3 # ps) =
     encode_group bits p1 p2 p3 @ written_pixels rest ps"
| "written_pixels _ ps = ps"


text \<open>Images for the concrete scenarios.\<close>

definition black_3x3 :: image where
  "black_3x3 = \<lparr>width = 3, height = 3, pixels = replicate 9 (0, 0, 0)\<rparr>"


definition hi_3x3 :: image where
  "hi_3x3 = \<lparr>width = 3, height = 3,
              pixels = [(0, 1, 0), (0, 1, 0), (0, 0, 0),
                        (0, 1, 1), (0, 1, 0), (0, 1, 0),
                        (0, 0, 0), (0, 0, 0), (0, 0, 0)]\<rparr>"


definition sample_2x3 :: image where
  "sample_2x3 = \<lparr>width = 2, height = 3,
                  pixels = [(10, 11, 12), (255, 0, 254), (1, 2, 3),
                            (7, 7, 7), (200, 100, 50), (0, 255, 128)]\<rparr>"


definition sample_2x4 :: image where
  "sample_2x4 = \<lparr>width = 2, height = 4,
                  pixels = [(10, 11, 12), (255, 0, 254), (1, 2, 3), (7, 7, 7),
                            (200, 100, 50), (0, 255, 128), (31, 32, 33), (64, 65, 66)]\<rparr>"


definition odd_4x1 :: image where
  "odd_4x1 = \<lparr>width = 4, height = 1,
               pixels = [(1, 1, 1), (1, 1, 1), (1, 1, 1), (1, 1, 1)]\<rparr>"

section \<open>Properties of the codec\<close>

lemma write_bit_parity:
  "write_bit v c mod 2 = (if c = CHR ''1'' then 1 else 0)"
  unfolding write_bit_def by (cases "c = CHR ''1''"; simp; presburger)

lemma write_bit_range:
  "valid_channel v \<Longrightarrow> valid_channel (write_bit v c)"
  unfolding write_bit_def valid_channel_def
  by (cases "c = CHR ''1''"; simp; presburger)


lemma str_bit_written:
  "c = CHR ''0'' \<or> c = CHR ''1'' \<Longrightarrow> str_bit (read_bit (write_bit v c)) = [c]"
  by (auto simp: read_bit_def str_bit_def write_bit_parity)


lemma str_bit_binary: "c \<in> set (str_bit b) \<Longrightarrow> c = CHR ''0'' \<or> c = CHR ''1''"
  by (auto simp: str_bit_def split: if_splits)


lemma bit_char_cases: "bit_char d = CHR ''0'' \<or> bit_char d = CHR ''1''"
  by (simp add: bit_char_def)


lemma bin_digits_binary: "c \<in> set (bin_digits n) \<Longrightarrow> c = CHR ''0'' \<or> c = CHR ''1''"
proof (induction n rule: bin_digits.induct)
  case (1 n)
  show ?case
  proof (cases "n < 2")
    case True
    with "1.prems" show ?thesis
      using bit_char_cases[of n] by (simp add: bin_digits.simps[of n])
  next
    case False
    with "1.prems" "1.IH" show ?thesis
      using bit_char_cases[of "n mod 2"] by (auto simp: bin_digits.simps[of n])
  qed
qed


lemma format_08b_binary: "c \<in> set (format_08b n) \<Longrightarrow> c = CHR ''0'' \<or> c = CHR ''1''"
  using bin_digits_binary[of c n] by (auto simp: format_08b_def)


lemma length_bin_digits: "0 < k \<Longrightarrow> n < 2 ^ k \<Longrightarrow> length (bin_digits n) \<le> k"
proof (induction n arbitrary: k rule: bin_digits.induct)
  case (1 n)
  show ?case
  proof (cases "n < 2")
    case True
    with "1.prems" show ?thesis by (simp add: bin_digits.simps[of n])
  next
    case False
    with "1.prems" obtain j where k: "k = Suc j" and j: "0 < j"
      by (cases k; cases "k - 1") auto
    from "1.prems" k have "n div 2 < 2 ^ j" by auto
    with "1.IH"[OF False j] have "length (bin_digits (n div 2)) \<le> j" by simp
    with False k show ?thesis by (simp add: bin_digits.simps[of n])
  qed
qed


lemma length_format_08b_ge: "8 \<le> length (format_08b n)"
  by (simp add: format_08b_def)


lemma length_format_08b: "n < 256 \<Longrightarrow> length (format_08b n) = 8"
  using length_bin_digits[of 8 n] by (simp add: format_08b_def)


lemma format_08b_nonempty: "format_08b n \<noteq> []"
  using length_format_08b_ge[of n] by auto


lemma format_08b_zero: "format_08b 0 = ''00000000''"
  by code_simp


lemma int_base2_from_append:
  "int_base2_from acc (xs @ ys) =
     (case int_base2_from acc xs of None \<Rightarrow> None | Some a \<Rightarrow> int_base2_from a ys)"
  by (induction xs arbitrary: acc) auto


lemma int_base2_from_bit_char:
  "d < 2 \<Longrightarrow> int_base2_from acc [bit_char d] = Some (2 * acc + d)"
  by (auto simp: bit_char_def)


lemma int_base2_from_bin_digits: "int_base2_from 0 (bin_digits n) = Some n"
proof (induction n rule: bin_digits.induct)
  case (1 n)
  show ?case
  proof (cases "n < 2")
    case True
    then show ?thesis
      by (simp add: bin_digits.simps[of n] int_base2_from_bit_char del: int_base2_from.simps)
  next
    case False
    with "1.IH" show ?thesis
      by (simp add: bin_digits.simps[of n] int_base2_from_append int_base2_from_bit_char
            del: int_base2_from.simps)
  qed
qed


lemma int_base2_from_zeros:
  "int_base2_from 0 (replicate m (CHR ''0'') @ s) = int_base2_from 0 s"
  by (induction m) auto


lemma int_base2_format_08b: "int_base2 (format_08b n) = Some n"
  using format_08b_nonempty[of n]
  by (simp add: int_base2_def) (simp add: format_08b_def int_base2_from_zeros int_base2_from_bin_digits)


lemma int_base2_from_total:
  "(\<And>c. c \<in> set s \<Longrightarrow> c = CHR ''0'' \<or> c = CHR ''1'') \<Longrightarrow> \<exists>n. int_base2_from acc s = Some n"
  by (induction s arbitrary: acc) auto

section \<open>One group of three pixels\<close>

lemma three_or_more:
  "3 \<le> length xs \<Longrightarrow> \<exists>a b c r. xs = a # b # c # r"
  by (auto simp: numeral_3_eq_3 Suc_le_length_iff)


lemma eight_or_more:
  "8 \<le> length xs \<Longrightarrow> \<exists>b0 b1 b2 b3 b4 b5 b6 b7 r. xs = b0 # b1 # b2 # b3 # b4 # b5 # b6 # b7 # r"
  by (auto simp: numeral_eq_Suc Suc_le_length_iff)


lemma upt_8: "[0..<8] = [0, 1, 2, 3, 4, 5, 6, 7]"
  by (simp add: upt_rec)


lemma modify_set_nine:
  "modify_set [a, b, c, d, e, f, g, h, i] (b0 # b1 # b2 # b3 # b4 # b5 # b6 # b7 # r)
   = [write_bit a b0, write_bit b b1, write_bit c b2, write_bit d b3,
      write_bit e b4, write_bit f b5, write_bit g b6, write_bit h b7, i]"
  by (simp add: modify_set_def upt_8)


lemma encode_group_explicit:
  "encode_group (b0 # b1 # b2 # b3 # b4 # b5 # b6 # b7 # r) (a, b, c) (d, e, f) (g, h, i)
   = [(write_bit a b0, write_bit b b1, write_bit c b2),
      (write_bit d b3, write_bit e b4, write_bit f b5),
      (write_bit g b6, write_bit h b7, i)]"
  by (simp add: encode_group_def modify_set_nine tuple3_def)


lemma encode_group_three: "\<exists>q1 q2 q3. encode_group bits p1 p2 p3 = [q1, q2, q3]"
  unfolding encode_group_def Let_def by blast


lemma length_encode_group: "length (encode_group bits p1 p2 p3) = 3"
  by (simp add: encode_group_def Let_def)


lemma encode_group_valid:
  assumes "8 \<le> length bits" and "valid_pixel p1" and "valid_pixel p2" and "valid_pixel p3"
  shows "list_all valid_pixel (encode_group bits p1 p2 p3)"
proof -
  from assms(1) obtain b0 b1 b2 b3 b4 b5 b6 b7 r
    where bits: "bits = b0 # b1 # b2 # b3 # b4 # b5 # b6 # b7 # r"
    using eight_or_more by blast
  show ?thesis
    using assms(2-4)
    by (cases p1; cases p2; cases p3)
       (simp add: bits encode_group_explicit write_bit_range)
qed


lemma binary_string_encode_group:
  assumes "8 \<le> length bits"
    and "\<And>c. c \<in> set bits \<Longrightarrow> c = CHR ''0'' \<or> c = CHR ''1''"
    and "encode_group bits p1 p2 p3 = [q1, q2, q3]"
  shows "binary_string (rgb q1 @ rgb q2 @ rgb q3) = take 8 bits"
proof -
  from assms(1) obtain b0 b1 b2 b3 b4 b5 b6 b7 r
    where bits: "bits = b0 # b1 # b2 # b3 # b4 # b5 # b6 # b7 # r"
    using eight_or_more by blast
  obtain a b c where p1: "p1 = (a, b, c)" by (cases p1)
  obtain d e f where p2: "p2 = (d, e, f)" by (cases p2)
  obtain g h i where p3: "p3 = (g, h, i)" by (cases p3)
  from assms(3) have q:
    "q1 = (write_bit a b0, write_bit b b1, write_bit c b2)"
    "q2 = (write_bit d b3, write_bit e b4, write_bit f b5)"
    "q3 = (write_bit g b6, write_bit h b7, i)"
    by (simp_all add: bits p1 p2 p3 encode_group_explicit)
  have b: "\<And>v. str_bit (read_bit (write_bit v b0)) = [b0]"
    "\<And>v. str_bit (read_bit (write_bit v b1)) = [b1]"
    "\<And>v. str_bit (read_bit (write_bit v b2)) = [b2]"
    "\<And>v. str_bit (read_bit (write_bit v b3)) = [b3]"
    "\<And>v. str_bit (read_bit (write_bit v b4)) = [b4]"
    "\<And>v. str_bit (read_bit (write_bit v b5)) = [b5]"
    "\<And>v. str_bit (read_bit (write_bit v b6)) = [b6]"
    "\<And>v. str_bit (read_bit (write_bit v b7)) = [b7]"
    using assms(2) by (simp_all add: bits str_bit_written)
  show ?thesis
    by (simp add: binary_string_def upt_8 q b bits)
qed


lemma binary_string_binary:
  "c \<in> set (binary_string vs) \<Longrightarrow> c = CHR ''0'' \<or> c = CHR ''1''"
  using str_bit_binary by (fastforce simp: binary_string_def)


lemma binary_string_nonempty: "binary_string vs \<noteq> []"
  by (simp add: binary_string_def upt_8 str_bit_def)


lemma int_base2_binary_string: "\<exists>n. int_base2 (binary_string vs) = Some n"
  using int_base2_from_total[of "binary_string vs" 0] binary_string_binary[of _ vs]
  by (simp add: int_base2_def binary_string_nonempty)


lemma group_code:
  assumes "n < 256" and "encode_group (format_08b n) p1 p2 p3 = [q1, q2, q3]"
  shows "int_base2 (binary_string (rgb q1 @ rgb q2 @ rgb q3)) = Some n"
proof -
  have "binary_string (rgb q1 @ rgb q2 @ rgb q3) = take 8 (format_08b n)"
    using length_format_08b_ge format_08b_binary assms(2)
    by (rule binary_string_encode_group)
  also have "\<dots> = format_08b n"
    using length_format_08b[OF assms(1)] by simp
  finally show ?thesis by (simp add: int_base2_format_08b)
qed

section \<open>The encoder writes group by group\<close>

text \<open>
  A write at index \<open>k\<close> of the row-major sequence: the position \<open>(k mod width, k div width)\<close>
  is inside the image, \<open>putpixel\<close> replaces pixel \<open>k\<close>, and the next position is that of
  \<open>k + 1\<close>. So the test of line 66 never fires for an index inside the image.
\<close>

lemma put_step_index:
  assumes len: "length (pixels img) = width img * height img"
    and k: "k < length (pixels img)"
  shows "put_step img (k mod width img, k div width img) p =
         Inr (img\<lparr>pixels := (pixels img)[k := p]\<rparr>, Suc k mod width img, Suc k div width img)"
proof -
  let ?w = "width img"
  from len k have w: "0 < ?w" by (cases "?w = 0") auto
  from len k have "k < height img * ?w" by (simp add: mult.commute)
  then have y: "k div ?w < height img" by (rule less_mult_imp_div_less)
  from w have x: "k mod ?w < ?w" by simp
  have idx: "k div ?w * ?w + k mod ?w = k" by simp
  have nxt: "(if ?w \<le> k mod ?w + 1 then (0, k div ?w + 1) else (k mod ?w + 1, k div ?w))
           = (Suc k mod ?w, Suc k div ?w)"
    using w x by (auto simp: mod_Suc div_Suc)
  show ?thesis
    using y x idx nxt by (auto simp: put_step_def putpixel_def)
qed


lemma read_pixel_set_append:
  "read_pixel_set (A @ p1 # p2 # p3 # R) (length A)
   = Some (rgb p1 @ rgb p2 @ rgb p3, length A + 3)"
  by (simp add: read_pixel_set_def next_pixel_def nth_append)


lemma read_pixel_set_short:
  "length ps < k + 3 \<Longrightarrow> read_pixel_set ps k = None"
  by (auto simp: read_pixel_set_def next_pixel_def split: option.splits)


lemma encrypt_loop_written:
  assumes "pixels img = A @ R"
    and "length A + length R = width img * height img"
    and "3 * length bs \<le> length R"
  shows "encrypt_loop bs (length A) (length A mod width img, length A div width img) img
         = Inr (img\<lparr>pixels := A @ written_pixels bs R\<rparr>)"
  using assms
proof (induction bs arbitrary: A R img)
  case Nil
  then show ?case by simp
next
  case (Cons bits rest)
  from Cons.prems(3) have "3 \<le> length R" by simp
  then obtain p1 p2 p3 R' where R: "R = p1 # p2 # p3 # R'"
    using three_or_more by blast
  define ps where "ps = modify_set (rgb p1 @ rgb p2 @ rgb p3) bits"
  define q1 where "q1 = tuple3 (take 3 ps)"
  define q2 where "q2 = tuple3 (take 3 (drop 3 ps))"
  define q3 where "q3 = tuple3 (take 3 (drop 6 ps))"
  have grp: "encode_group bits p1 p2 p3 = [q1, q2, q3]"
    by (simp add: encode_group_def ps_def q1_def q2_def q3_def Let_def)
  let ?k = "length A"
  let ?w = "width img"
  define img1 where "img1 = img\<lparr>pixels := A @ q1 # p2 # p3 # R'\<rparr>"
  define img2 where "img2 = img\<lparr>pixels := A @ q1 # q2 # p3 # R'\<rparr>"
  define img3 where "img3 = img\<lparr>pixels := (A @ [q1, q2, q3]) @ R'\<rparr>"
  have len: "length (pixels img) = width img * height img"
    using Cons.prems(1,2) by simp
  have s1: "put_step img (?k mod ?w, ?k div ?w) q1 = Inr (img1, Suc ?k mod ?w, Suc ?k div ?w)"
    using put_step_index[OF len, of ?k q1] Cons.prems(1) R by (simp add: img1_def)
  have len1: "length (pixels img1) = width img1 * height img1"
    using len Cons.prems(1) R by (simp add: img1_def)
  have s2: "put_step img1 (Suc ?k mod ?w, Suc ?k div ?w) q2
            = Inr (img2, Suc (Suc ?k) mod ?w, Suc (Suc ?k) div ?w)"
    using put_step_index[OF len1, of "Suc ?k" q2]
    by (simp add: img1_def img2_def list_update_append)
  have len2: "length (pixels img2) = width img2 * height img2"
    using len Cons.prems(1) R by (simp add: img2_def)
  have s3: "put_step img2 (Suc (Suc ?k) mod ?w, Suc (Suc ?k) div ?w) q3
            = Inr (img3, length (A @ [q1, q2, q3]) mod ?w, length (A @ [q1, q2, q3]) div ?w)"
    using put_step_index[OF len2, of "Suc (Suc ?k)" q3]
    by (simp add: img2_def img3_def list_update_append)
  have rd: "read_pixel_set (pixels img) ?k = Some (rgb p1 @ rgb p2 @ rgb p3, length (A @ [q1, q2, q3]))"
    using read_pixel_set_append[of A p1 p2 p3 R'] Cons.prems(1) R by simp
  have IH: "encrypt_loop rest (length (A @ [q1, q2, q3]))
              (length (A @ [q1, q2, q3]) mod width img3, length (A @ [q1, q2, q3]) div width img3) img3
            = Inr (img3\<lparr>pixels := (A @ [q1, q2, q3]) @ written_pixels rest R'\<rparr>)"
    using Cons.prems(2,3) R
    by (intro Cons.IH) (simp_all add: img3_def)
  have w3: "width img3 = ?w" by (simp add: img3_def)
  have "encrypt_loop (bits # rest) ?k (?k mod ?w, ?k div ?w) img
        = encrypt_loop rest (length (A @ [q1, q2, q3]))
              (length (A @ [q1, q2, q3]) mod ?w, length (A @ [q1, q2, q3]) div ?w) img3"
    unfolding encrypt_loop.simps rd
    by (simp only: option.case prod.case Let_def ps_def[symmetric] q1_def[symmetric]
          q2_def[symmetric] q3_def[symmetric] s1 s2 s3 sum.case)
  also have "\<dots> = Inr (img3\<lparr>pixels := (A @ [q1, q2, q3]) @ written_pixels rest R'\<rparr>)"
    using IH w3 by simp
  also have "\<dots> = Inr (img\<lparr>pixels := A @ written_pixels (bits # rest) R\<rparr>)"
    by (simp add: img3_def R grp)
  finally show ?case .
qed


lemma encrypt_image_written:
  assumes "length (pixels img) = width img * height img"
    and "3 * (length M + 1) \<le> width img * height img"
  shows "encrypt_image img M
         = Inr (img\<lparr>pixels := written_pixels (data_in_binary M) (pixels img)\<rparr>)"
  using encrypt_loop_written[of img "[]" "pixels img" "data_in_binary M"] assms
  by (simp add: encrypt_image_def data_in_binary_def)


lemma length_written_pixels: "length (written_pixels bs ps) = length ps"
  by (induction bs ps rule: written_pixels.induct) (simp_all add: length_encode_group)


lemma drop_three_more: "drop (3 + n) (a # b # c # xs) = drop n xs"
  by (simp add: numeral_3_eq_3)


lemma drop_written_pixels:
  "3 * length bs \<le> length ps \<Longrightarrow>
   drop (3 * length bs) (written_pixels bs ps) = drop (3 * length bs) ps"
proof (induction bs ps rule: written_pixels.induct)
  case (1 bits rest p1 p2 p3 ps)
  then show ?case by (simp add: length_encode_group drop_three_more)
qed simp_all


lemma written_pixels_valid:
  "list_all (\<lambda>b. 8 \<le> length b) bs \<Longrightarrow> list_all valid_pixel ps \<Longrightarrow>
   list_all valid_pixel (written_pixels bs ps)"
proof (induction bs ps rule: written_pixels.induct)
  case (1 bits rest p1 p2 p3 ps)
  then show ?case by (simp add: encode_group_valid)
qed simp_all


lemma data_in_binary_long: "list_all (\<lambda>b. 8 \<le> length b) (data_in_binary M)"
  by (simp add: data_in_binary_def list_all_iff length_format_08b_ge)

section \<open>The decoder's loop\<close>

lemma decode_loop_acc_all:
  "\<forall>data. decode_loop ps data = (data @ fst (decode_loop ps []), snd (decode_loop ps []))"
proof (rule decode_loop.induct
    [of "\<lambda>ps d. \<forall>data. decode_loop ps data
                      = (data @ fst (decode_loop ps []), snd (decode_loop ps []))" ps "[]"])
  fix p1 p2 p3 rest and d :: message
  assume IH: "\<And>code. int_base2 (binary_string (rgb p1 @ rgb p2 @ rgb p3)) = Some code \<Longrightarrow>
                code \<noteq> 0 \<Longrightarrow>
                \<forall>data. decode_loop rest data
                       = (data @ fst (decode_loop rest []), snd (decode_loop rest []))"
  let ?ps = "p1 # p2 # p3 # rest"
  show "\<forall>data. decode_loop ?ps data = (data @ fst (decode_loop ?ps []), snd (decode_loop ?ps []))"
  proof
    fix data
    show "decode_loop ?ps data = (data @ fst (decode_loop ?ps []), snd (decode_loop ?ps []))"
    proof (cases "int_base2 (binary_string (rgb p1 @ rgb p2 @ rgb p3))")
      case None
      then show ?thesis by simp
    next
      case (Some code)
      show ?thesis
      proof (cases "code = 0")
        case True
        with Some show ?thesis by simp
      next
        case False
        note step = IH[OF Some False, rule_format]
        have a: "decode_loop ?ps data = decode_loop rest (data @ [code])"
          using Some False by simp
        have b: "decode_loop ?ps [] = decode_loop rest [code]"
          using Some False by simp
        have c: "decode_loop rest (data @ [code])
                 = ((data @ [code]) @ fst (decode_loop rest []), snd (decode_loop rest []))"
          by (rule step)
        have e: "decode_loop rest [code]
                 = ([code] @ fst (decode_loop rest []), snd (decode_loop rest []))"
          by (rule step)
        show ?thesis
          unfolding a b by (simp add: c e)
      qed
    qed
  qed
qed simp_all


lemma decode_loop_acc:
  "decode_loop ps data = (data @ fst (decode_loop ps []), snd (decode_loop ps []))"
  using decode_loop_acc_all by blast


lemma decode_loop_short: "length ps < 3 \<Longrightarrow> decode_loop ps data = (data, Exhausted)"
  by (cases "(ps, data)" rule: decode_loop.cases) auto


lemma decode_loop_first:
  "decode_loop (p1 # p2 # p3 # rest) [] =
     (case int_base2 (binary_string (rgb p1 @ rgb p2 @ rgb p3)) of
        None \<Rightarrow> ([], Exhausted)
      | Some code \<Rightarrow> if code = 0 then ([], Terminator)
                     else (code # fst (decode_loop rest []), snd (decode_loop rest [])))"
  using decode_loop_acc[of rest "[c]" for c]
  by (simp split: option.splits)


lemma accumulated_empty_iff:
  "fst (decode_loop ps []) = [] \<longleftrightarrow>
     length ps < 3 \<or> int_base2 (binary_string (concat (map rgb (take 3 ps)))) = Some 0"
proof (cases "length ps < 3")
  case True
  then show ?thesis by (simp add: decode_loop_short)
next
  case False
  then have "3 \<le> length ps" by simp
  then obtain p1 p2 p3 r where ps: "ps = p1 # p2 # p3 # r"
    using three_or_more by blast
  obtain n where n: "int_base2 (binary_string (rgb p1 @ rgb p2 @ rgb p3)) = Some n"
    using int_base2_binary_string by blast
  show ?thesis
    unfolding ps decode_loop_first by (simp add: n)
qed


lemma exhausted_length_all:
  "snd (decode_loop ps []) = Exhausted \<longrightarrow>
     length (fst (decode_loop ps [])) = length ps div 3 \<and> 0 \<notin> set (fst (decode_loop ps []))"
proof (rule decode_loop.induct
    [of "\<lambda>ps d. snd (decode_loop ps []) = Exhausted \<longrightarrow>
                 length (fst (decode_loop ps [])) = length ps div 3
                 \<and> 0 \<notin> set (fst (decode_loop ps []))" ps "[]"])
  fix p1 p2 p3 rest and d :: message
  assume IH: "\<And>code. int_base2 (binary_string (rgb p1 @ rgb p2 @ rgb p3)) = Some code \<Longrightarrow>
                code \<noteq> 0 \<Longrightarrow>
                snd (decode_loop rest []) = Exhausted \<longrightarrow>
                  length (fst (decode_loop rest [])) = length rest div 3
                  \<and> 0 \<notin> set (fst (decode_loop rest []))"
  obtain n where n: "int_base2 (binary_string (rgb p1 @ rgb p2 @ rgb p3)) = Some n"
    using int_base2_binary_string by blast
  let ?ps = "p1 # p2 # p3 # rest"
  show "snd (decode_loop ?ps []) = Exhausted \<longrightarrow>
          length (fst (decode_loop ?ps [])) = length ?ps div 3
          \<and> 0 \<notin> set (fst (decode_loop ?ps []))"
  proof (cases "n = 0")
    case True
    then show ?thesis unfolding decode_loop_first by (simp add: n)
  next
    case False
    have "length ?ps div 3 = Suc (length rest div 3)" by simp
    then show ?thesis
      unfolding decode_loop_first using IH[OF n False] False by (simp add: n)
  qed
qed simp_all


lemma decode_written:
  assumes "\<forall>c \<in> set M. 0 < c \<and> c < 256"
    and "3 * (length M + 1) \<le> length ps"
  shows "decode_loop (written_pixels (data_in_binary M) ps) data = (data @ M, Terminator)"
  using assms
proof (induction M arbitrary: ps data)
  case Nil
  then have "3 \<le> length ps" by simp
  then obtain p1 p2 p3 r where ps: "ps = p1 # p2 # p3 # r"
    using three_or_more by blast
  obtain q1 q2 q3 where q: "encode_group (format_08b 0) p1 p2 p3 = [q1, q2, q3]"
    using encode_group_three by blast
  have "int_base2 (binary_string (rgb q1 @ rgb q2 @ rgb q3)) = Some 0"
    using group_code[OF _ q] by simp
  then show ?case by (simp add: data_in_binary_def ps q)
next
  case (Cons m M)
  then have "3 \<le> length ps" by simp
  then obtain p1 p2 p3 r where ps: "ps = p1 # p2 # p3 # r"
    using three_or_more by blast
  obtain q1 q2 q3 where q: "encode_group (format_08b m) p1 p2 p3 = [q1, q2, q3]"
    using encode_group_three by blast
  from Cons.prems(1) have m: "0 < m" "m < 256" by simp_all
  have code: "int_base2 (binary_string (rgb q1 @ rgb q2 @ rgb q3)) = Some m"
    using group_code[OF m(2) q] .
  have IH: "decode_loop (written_pixels (data_in_binary M) r) (data @ [m])
            = ((data @ [m]) @ M, Terminator)"
    using Cons.prems ps by (intro Cons.IH) simp_all
  have "written_pixels (data_in_binary (m # M)) ps
        = q1 # q2 # q3 # written_pixels (data_in_binary M) r"
    by (simp add: data_in_binary_def ps q)
  then show ?case using code m(1) IH by simp
qed

section \<open>Encoding, then decoding\<close>

lemma encrypt_then_decode:
  assumes "length (pixels G) = width G * height G"
    and "\<forall>c \<in> set M. c \<le> 255 \<and> c \<noteq> 0"
    and "3 * (length M + 1) \<le> width G * height G"
  shows "encrypt_image G M = Inr (G\<lparr>pixels := written_pixels (data_in_binary M) (pixels G)\<rparr>)"
    and "decode_loop (written_pixels (data_in_binary M) (pixels G)) [] = (M, Terminator)"
proof -
  show "encrypt_image G M = Inr (G\<lparr>pixels := written_pixels (data_in_binary M) (pixels G)\<rparr>)"
    using assms(1,3) by (rule encrypt_image_written)
  from assms(2) have codes: "\<forall>c \<in> set M. 0 < c \<and> c < 256" by auto
  show "decode_loop (written_pixels (data_in_binary M) (pixels G)) [] = (M, Terminator)"
    using decode_written[OF codes, of "pixels G" "[]"] assms(1,3) by simp
qed

text \<open>
  The same through the file system: \<open>encode_message\<close> saves an image from which
  \<open>decode_message\<close> reads the text back.
\<close>

lemma encode_decode_message:
  assumes "fs img_path = Some G" and "valid_image G"
    and "img_path \<noteq> []" and "output_path \<noteq> []" and "M \<noteq> []"
    and "\<forall>c \<in> set M. c \<le> 255 \<and> c \<noteq> 0"
    and "3 * (length M + 1) \<le> width G * height G"
  shows "\<exists>out G'. encode_message fs img_path M output_path = Inr (out, G')
               \<and> decode_message (fs(out \<mapsto> G')) out = Inr M"
proof -
  from assms(2) have len: "length (pixels G) = width G * height G"
    by (simp add: valid_image_def)
  note ed = encrypt_then_decode[OF len assms(6,7)]
  have c: "capacity_check (width G) (height G) (length M) = Inr ()"
    using assms(7) by (simp add: capacity_check_def Let_def mult.commute)
  show ?thesis
    using assms(1,3,4,5) ed c
    by (auto simp: encode_message_def decode_message_def decode_pixels_def)
qed

section \<open>The claims\<close>

text \<open>
  Claim C1, as stated, at the empty message. The image of three black pixels has room
  for the terminator, \<open>encrypt_image\<close> writes it, and the decoder, which leaves its loop
  at the terminator with no character accumulated, raises ``No hidden message found''
  instead of returning the empty text. \<open>encode_message\<close> itself refuses an empty text.
\<close>

theorem round_trip_counterexample:
  "valid_image \<lparr>width = 3, height = 1, pixels = [(0, 0, 0), (0, 0, 0), (0, 0, 0)]\<rparr>
 \<and> 3 * (length ([] :: message) + 1) \<le> 3 * (1 :: nat)
 \<and> encrypt_image \<lparr>width = 3, height = 1, pixels = [(0, 0, 0), (0, 0, 0), (0, 0, 0)]\<rparr> []
     = Inr \<lparr>width = 3, height = 1, pixels = [(0, 0, 0), (0, 0, 0), (0, 0, 0)]\<rparr>
 \<and> decode_pixels \<lparr>width = 3, height = 1, pixels = [(0, 0, 0), (0, 0, 0), (0, 0, 0)]\<rparr>
     = Inl NoHiddenMessage
 \<and> encode_message
       [''in.png'' \<mapsto> \<lparr>width = 3, height = 1, pixels = [(0, 0, 0), (0, 0, 0), (0, 0, 0)]\<rparr>]
       ''in.png'' [] ''out.png''
     = Inl FillInAllFields"
  by code_simp

text \<open>
  Claim C1, amended. For every non-empty message whose characters all have codes in
  [1,255] and every pixel grid with at least \<open>3 * (length M + 1)\<close> pixels, the encoder
  succeeds and decoding its result gives back exactly the message.
\<close>

theorem round_trip_nonempty:
  assumes "valid_image G"
    and "M \<noteq> []"
    and "\<forall>c \<in> set M. c \<le> 255 \<and> c \<noteq> 0"
    and "3 * (length M + 1) \<le> width G * height G"
  shows "\<exists>G'. encrypt_image G M = Inr G' \<and> decode_pixels G' = Inr M"
proof -
  from assms(1) have len: "length (pixels G) = width G * height G"
    by (simp add: valid_image_def)
  note ed = encrypt_then_decode[OF len assms(3,4)]
  let ?G' = "G\<lparr>pixels := written_pixels (data_in_binary M) (pixels G)\<rparr>"
  have "decode_pixels ?G' = Inr M"
    using ed(2) assms(2) by (simp add: decode_pixels_def)
  with ed(1) show ?thesis by blast
qed

theorem round_trip_nonempty_witness:
  "valid_image sample_2x3
 \<and> 3 * (length [65 :: nat] + 1) \<le> width sample_2x3 * height sample_2x3
 \<and> (\<exists>G'. encrypt_image sample_2x3 [65] = Inr G' \<and> decode_pixels G' = Inr [65])"
proof -
  have h1: "valid_image sample_2x3" by code_simp
  have h2: "[65 :: nat] \<noteq> []" by simp
  have h3: "\<forall>c \<in> set [65 :: nat]. c \<le> 255 \<and> c \<noteq> 0" by simp
  have h4: "3 * (length [65 :: nat] + 1) \<le> width sample_2x3 * height sample_2x3"
    by (simp add: sample_2x3_def)
  show ?thesis using round_trip_nonempty[OF h1 h2 h3 h4] h1 h4 by blast
qed

text \<open>
  Claim C2, as stated, on a grid of four pixels. The encoder rewrites the first three
  pixels with the eight zero bits of the terminator and leaves the fourth alone; the
  decoder then raises ``No hidden message found'' and does not return the empty text.
\<close>

theorem empty_message_counterexample:
  "encrypt_image \<lparr>width = 2, height = 2,
                   pixels = [(255, 254, 1), (0, 3, 7), (9, 9, 9), (4, 4, 4)]\<rparr> []
     = Inr \<lparr>width = 2, height = 2,
             pixels = [(254, 254, 0), (0, 2, 6), (8, 8, 9), (4, 4, 4)]\<rparr>
 \<and> decode_pixels \<lparr>width = 2, height = 2,
                    pixels = [(254, 254, 0), (0, 2, 6), (8, 8, 9), (4, 4, 4)]\<rparr>
     = Inl NoHiddenMessage
 \<and> decode_pixels \<lparr>width = 2, height = 2,
                    pixels = [(254, 254, 0), (0, 2, 6), (8, 8, 9), (4, 4, 4)]\<rparr>
     \<noteq> Inr []"
  by code_simp

text \<open>
  Claim C2, amended. Encoding the empty text into a grid with at least three pixels
  (through \<open>encrypt_image\<close>) succeeds and keeps the size of the grid; every pixel after
  the third is unchanged; the first eight channel values of the first three pixels carry
  the eight zero bits of the terminator and the ninth value, the blue of the third
  pixel, is unchanged; decoding the result raises ``No hidden message found''.
\<close>

theorem empty_message_encoding:
  assumes "valid_image G" and "3 \<le> width G * height G"
  shows "\<exists>G'. encrypt_image G [] = Inr G'
            \<and> width G' = width G \<and> height G' = height G
            \<and> length (pixels G') = length (pixels G)
            \<and> drop 3 (pixels G') = drop 3 (pixels G)
            \<and> binary_string (concat (map rgb (take 3 (pixels G')))) = ''00000000''
            \<and> snd (snd (pixels G' ! 2)) = snd (snd (pixels G ! 2))
            \<and> decode_pixels G' = Inl NoHiddenMessage"
proof -
  from assms(1) have len: "length (pixels G) = width G * height G"
    by (simp add: valid_image_def)
  with assms(2) have "3 \<le> length (pixels G)" by simp
  then obtain p1 p2 p3 r where ps: "pixels G = p1 # p2 # p3 # r"
    using three_or_more by blast
  obtain q1 q2 q3 where q: "encode_group (format_08b 0) p1 p2 p3 = [q1, q2, q3]"
    using encode_group_three by blast
  let ?G' = "G\<lparr>pixels := q1 # q2 # q3 # r\<rparr>"
  have wr: "written_pixels (data_in_binary []) (pixels G) = q1 # q2 # q3 # r"
    by (simp add: data_in_binary_def ps q)
  have enc: "encrypt_image G [] = Inr ?G'"
    using encrypt_image_written[OF len, of "[]"] assms(2) wr by simp
  have "binary_string (rgb q1 @ rgb q2 @ rgb q3) = take 8 (format_08b 0)"
    using length_format_08b_ge format_08b_binary q by (rule binary_string_encode_group)
  then have bs: "binary_string (rgb q1 @ rgb q2 @ rgb q3) = ''00000000''"
    by (simp add: format_08b_zero)
  have blue: "snd (snd q3) = snd (snd p3)"
    using q by (cases p1; cases p2; cases p3) (auto simp: format_08b_zero encode_group_explicit)
  have "decode_loop (pixels ?G') [] = ([], Terminator)"
    using decode_written[of "[]" "pixels G" "[]"] assms(2) len wr by simp
  then have dec: "decode_pixels ?G' = Inl NoHiddenMessage"
    by (simp add: decode_pixels_def)
  show ?thesis
    using enc bs blue dec by (intro exI[of _ ?G']) (simp add: ps)
qed

theorem empty_message_encoding_witness:
  "valid_image sample_2x3 \<and> 3 \<le> width sample_2x3 * height sample_2x3
 \<and> (\<exists>G'. encrypt_image sample_2x3 [] = Inr G'
          \<and> drop 3 (pixels G') = drop 3 (pixels sample_2x3)
          \<and> binary_string (concat (map rgb (take 3 (pixels G')))) = ''00000000''
          \<and> decode_pixels G' = Inl NoHiddenMessage)"
proof -
  have h1: "valid_image sample_2x3" by code_simp
  have h2: "3 \<le> width sample_2x3 * height sample_2x3" by (simp add: sample_2x3_def)
  show ?thesis using empty_message_encoding[OF h1 h2] h1 h2 by blast
qed

text \<open>
  Claim C3, as stated, on three pixels whose first eight channel values are even. The
  loop is left at the terminator, the case in which the claim promises a successful
  result, and the decoder raises ``No hidden message found''.
\<close>

theorem terminator_first_counterexample:
  "snd (decode_loop [(2, 4, 6), (8, 10, 12), (14, 16, 1)] []) = Terminator
 \<and> decode_pixels \<lparr>width = 3, height = 1, pixels = [(2, 4, 6), (8, 10, 12), (14, 16, 1)]\<rparr>
     = Inl NoHiddenMessage"
  by code_simp

text \<open>
  Claim C3, amended. The decoder raises ``No hidden message found'' if and only if no
  character was accumulated when its loop stopped, whichever way it stopped: that is,
  if and only if the grid has fewer than three pixels or its first group decodes to the
  code 0. In every other case it returns the accumulated characters.
\<close>

theorem no_message_iff_nothing_accumulated:
  "(decode_pixels img = Inl NoHiddenMessage \<longleftrightarrow> fst (decode_loop (pixels img) []) = [])
 \<and> (fst (decode_loop (pixels img) []) = [] \<longleftrightarrow>
      length (pixels img) < 3
      \<or> int_base2 (binary_string (concat (map rgb (take 3 (pixels img))))) = Some 0)
 \<and> (fst (decode_loop (pixels img) []) \<noteq> [] \<longrightarrow>
      decode_pixels img = Inr (fst (decode_loop (pixels img) [])))"
  using accumulated_empty_iff[of "pixels img"] by (simp add: decode_pixels_def Let_def)

theorem no_message_iff_nothing_accumulated_witness:
  "fst (decode_loop (pixels odd_4x1) []) \<noteq> []
 \<and> decode_pixels odd_4x1 = Inr (fst (decode_loop (pixels odd_4x1) []))
 \<and> fst (decode_loop (pixels odd_4x1) []) = [255]"
proof -
  have h: "fst (decode_loop (pixels odd_4x1) []) = [255]" by code_simp
  then have "fst (decode_loop (pixels odd_4x1) []) \<noteq> []" by simp
  with no_message_iff_nothing_accumulated[of odd_4x1] h show ?thesis by blast
qed

text \<open>
  Claim C4. The capacity check fails exactly when \<open>w * h < 3 * (l + 1)\<close>, and then
  reports \<open>3 * (l + 1)\<close> pixels needed and \<open>w * h\<close> available; one pixel below the bound
  is rejected and the bound itself accepted; for a 10 by 1 image and 50 characters it
  reports 153 and 10. \<open>encode_message\<close> raises that failure for a text that is too long
  for the image it opened.
\<close>

theorem capacity_rejection:
  "(capacity_check w h l = Inl (ImageTooSmall (3 * (l + 1)) (w * h)) \<longleftrightarrow> w * h < 3 * (l + 1))
 \<and> (capacity_check w h l = Inr () \<longleftrightarrow> 3 * (l + 1) \<le> w * h)
 \<and> (w * h = 3 * (l + 1) - 1 \<longrightarrow>
      capacity_check w h l = Inl (ImageTooSmall (3 * (l + 1)) (w * h)))
 \<and> (w * h = 3 * (l + 1) \<longrightarrow> capacity_check w h l = Inr ())
 \<and> capacity_check 10 1 50 = Inl (ImageTooSmall 153 10)
 \<and> (img_path \<noteq> [] \<and> text \<noteq> [] \<and> output_path \<noteq> [] \<and> fs img_path = Some img
      \<and> width img * height img < 3 * (length text + 1) \<longrightarrow>
      encode_message fs img_path text output_path
        = Inl (ImageTooSmall (3 * (length text + 1)) (width img * height img)))"
  by (auto simp: capacity_check_def encode_message_def Let_def mult.commute)

theorem capacity_rejection_witness:
  "(3 :: nat) * 2 = 3 * (1 + 1) \<and> capacity_check 3 2 1 = Inr ()
 \<and> (5 :: nat) * 1 = 3 * (1 + 1) - 1 \<and> capacity_check 5 1 1 = Inl (ImageTooSmall 6 5)
 \<and> encode_message [''in.png'' \<mapsto> sample_2x3] ''in.png'' [72, 105] ''out''
     = Inl (ImageTooSmall 9 6)"
proof -
  have "width sample_2x3 * height sample_2x3 < 3 * (length [72 :: nat, 105] + 1)"
    by (simp add: sample_2x3_def)
  then have "encode_message [''in.png'' \<mapsto> sample_2x3] ''in.png'' [72, 105] ''out''
     = Inl (ImageTooSmall (3 * (length [72 :: nat, 105] + 1)) (width sample_2x3 * height sample_2x3))"
    using capacity_rejection[of _ _ _ "''in.png''" "[72, 105]" "''out''"
        "[''in.png'' \<mapsto> sample_2x3]" sample_2x3]
    by simp
  then show ?thesis
    using capacity_rejection[of 3 2 1] capacity_rejection[of 5 1 1]
    by (simp add: sample_2x3_def)
qed

text \<open>
  Claim C5. For every message without a character of code 0 and every grid with at
  least \<open>3 * (length M + 1)\<close> pixels, the encoder succeeds, the grid keeps its length, and
  every pixel at a row-major index from \<open>3 * (length M + 1)\<close> on is the pixel of the
  source grid.
\<close>

theorem untouched_tail:
  assumes "valid_image G"
    and "0 \<notin> set M"
    and "3 * (length M + 1) \<le> width G * height G"
  shows "\<exists>G'. encrypt_image G M = Inr G'
            \<and> length (pixels G') = length (pixels G)
            \<and> (\<forall>i. 3 * (length M + 1) \<le> i \<and> i < length (pixels G)
                   \<longrightarrow> pixels G' ! i = pixels G ! i)"
proof -
  from assms(1) have len: "length (pixels G) = width G * height G"
    by (simp add: valid_image_def)
  let ?bs = "data_in_binary M"
  let ?G' = "G\<lparr>pixels := written_pixels ?bs (pixels G)\<rparr>"
  have n: "3 * length ?bs = 3 * (length M + 1)" by (simp add: data_in_binary_def)
  have enc: "encrypt_image G M = Inr ?G'"
    using len assms(3) by (rule encrypt_image_written)
  have dr: "drop (3 * (length M + 1)) (written_pixels ?bs (pixels G))
            = drop (3 * (length M + 1)) (pixels G)"
    using drop_written_pixels[of ?bs "pixels G"] assms(3) len n by simp
  have "written_pixels ?bs (pixels G) ! i = pixels G ! i"
    if "3 * (length M + 1) \<le> i" "i < length (pixels G)" for i
  proof -
    let ?n = "3 * (length M + 1)"
    have "written_pixels ?bs (pixels G) ! i = drop ?n (written_pixels ?bs (pixels G)) ! (i - ?n)"
      using that by (simp add: length_written_pixels)
    also have "\<dots> = drop ?n (pixels G) ! (i - ?n)" by (simp only: dr)
    also have "\<dots> = pixels G ! i" using that by simp
    finally show ?thesis .
  qed
  then show ?thesis using enc by (auto simp: length_written_pixels)
qed

theorem untouched_tail_witness:
  "valid_image sample_2x4
 \<and> 3 * (length [65 :: nat] + 1) \<le> width sample_2x4 * height sample_2x4
 \<and> (\<exists>G'. encrypt_image sample_2x4 [65] = Inr G'
          \<and> pixels G' ! 6 = pixels sample_2x4 ! 6
          \<and> pixels G' ! 7 = pixels sample_2x4 ! 7)"
proof -
  have h1: "valid_image sample_2x4" by code_simp
  have h2: "0 \<notin> set [65 :: nat]" by simp
  have h3: "3 * (length [65 :: nat] + 1) \<le> width sample_2x4 * height sample_2x4"
    by (simp add: sample_2x4_def)
  have l: "length (pixels sample_2x4) = 8" by (simp add: sample_2x4_def)
  from untouched_tail[OF h1 h2 h3] obtain G' where
    e: "encrypt_image sample_2x4 [65] = Inr G'"
    and t: "\<forall>i. 3 * (length [65 :: nat] + 1) \<le> i \<and> i < length (pixels sample_2x4)
              \<longrightarrow> pixels G' ! i = pixels sample_2x4 ! i"
    by blast
  from t l have "pixels G' ! 6 = pixels sample_2x4 ! 6" "pixels G' ! 7 = pixels sample_2x4 ! 7"
    by simp_all
  with e h1 h3 show ?thesis by blast
qed

text \<open>
  Claim C6. For every channel value \<open>v\<close> in [0,255] and every bit (the character
  \<open>0\<close> or \<open>1\<close> of the binary string), the parity read back from the written channel
  is the requested bit: as a number, and as the character the decoder appends.
\<close>

theorem parity_round_trip:
  assumes "0 \<le> v" and "v \<le> 255" and "c = CHR ''0'' \<or> c = CHR ''1''"
  shows "read_bit (write_bit v c) = (if c = CHR ''1'' then 1 else 0)
       \<and> str_bit (read_bit (write_bit v c)) = [c]"
  using assms by (auto simp: read_bit_def str_bit_def write_bit_parity)

theorem parity_round_trip_witness:
  "read_bit (write_bit 254 (CHR ''1'')) = 1
 \<and> str_bit (read_bit (write_bit 254 (CHR ''1''))) = ''1''"
  using parity_round_trip [of 254 "CHR ''1''"] by (simp add: str_bit_def)

text \<open>
  Claim C7. For every channel value \<open>v\<close> in [0,255] and every bit, the written value
  differs from \<open>v\<close> by at most 1.
\<close>

theorem bounded_distortion:
  assumes "0 \<le> v" and "v \<le> 255" and "c = CHR ''0'' \<or> c = CHR ''1''"
  shows "\<bar>write_bit v c - v\<bar> \<le> 1"
  using assms unfolding write_bit_def by auto

theorem bounded_distortion_witness:
  "\<bar>write_bit 255 (CHR ''0'') - 255\<bar> \<le> 1"
  using bounded_distortion [of 255 "CHR ''0''"] by simp

text \<open>
  Claim C8. Encoding ``Hi'' (codes 72 and 105) into the 3 by 3 grid of black pixels
  gives the grid \<open>hi_3x3\<close>: the parities of the first eight channel values of its three
  groups are 01001000, 01101001 and 00000000, every channel value is 0 or 1, and decoding
  it returns ``Hi''.
\<close>

theorem hi_scenario:
  "encrypt_image black_3x3 [72, 105] = Inr hi_3x3
 \<and> binary_string (concat (map rgb (take 3 (pixels hi_3x3)))) = ''01001000''
 \<and> binary_string (concat (map rgb (take 3 (drop 3 (pixels hi_3x3))))) = ''01101001''
 \<and> binary_string (concat (map rgb (take 3 (drop 6 (pixels hi_3x3))))) = ''00000000''
 \<and> list_all (\<lambda>v. v = 0 \<or> v = 1) (concat (map rgb (pixels hi_3x3)))
 \<and> decode_pixels hi_3x3 = Inr [72, 105]"
  by code_simp

text \<open>
  Claim C9. When the decoder's loop stops because the grid is exhausted, with no
  terminator produced, and at least one character was accumulated, the decoder returns
  the accumulated text as its result: one character, none of code 0, for each complete
  group of three pixels.
\<close>

theorem partial_text_returned:
  assumes "snd (decode_loop (pixels img) []) = Exhausted"
    and "fst (decode_loop (pixels img) []) \<noteq> []"
  shows "decode_pixels img = Inr (fst (decode_loop (pixels img) []))
       \<and> length (fst (decode_loop (pixels img) [])) = length (pixels img) div 3
       \<and> 0 \<notin> set (fst (decode_loop (pixels img) []))"
  using assms exhausted_length_all[of "pixels img"] by (simp add: decode_pixels_def Let_def)

theorem partial_text_returned_witness:
  "snd (decode_loop (pixels odd_4x1) []) = Exhausted
 \<and> decode_pixels odd_4x1 = Inr (fst (decode_loop (pixels odd_4x1) []))
 \<and> length (fst (decode_loop (pixels odd_4x1) [])) = length (pixels odd_4x1) div 3"
proof -
  have h1: "snd (decode_loop (pixels odd_4x1) []) = Exhausted" by code_simp
  have "fst (decode_loop (pixels odd_4x1) []) = [255]" by code_simp
  then have h2: "fst (decode_loop (pixels odd_4x1) []) \<noteq> []" by simp
  show ?thesis using partial_text_returned[OF h1 h2] h1 by blast
qed

text \<open>
  Claim C10. Whenever the capacity check passes for a grid and a message, the encoder
  raises neither ``Image is too small to encode this message!'' nor ``Image is too small
  for this message!'': it runs to completion, and the grid it leaves is again a grid of
  8-bit channel values. This holds for every message, so for those with codes in
  [0,255].
\<close>

theorem encoder_failures_unreachable:
  assumes "valid_image G"
    and "capacity_check (width G) (height G) (length M) = Inr ()"
  shows "encrypt_image G M \<noteq> Inl TooSmallToEncode
       \<and> encrypt_image G M \<noteq> Inl TooSmallForMessage
       \<and> (\<exists>G'. encrypt_image G M = Inr G' \<and> valid_image G')"
proof -
  from assms(1) have len: "length (pixels G) = width G * height G"
    and val: "list_all valid_pixel (pixels G)"
    by (simp_all add: valid_image_def)
  from assms(2) have cap: "3 * (length M + 1) \<le> width G * height G"
    by (simp add: capacity_check_def Let_def split: if_splits)
  let ?G' = "G\<lparr>pixels := written_pixels (data_in_binary M) (pixels G)\<rparr>"
  have enc: "encrypt_image G M = Inr ?G'"
    using len cap by (rule encrypt_image_written)
  have "valid_image ?G'"
    using len written_pixels_valid[OF data_in_binary_long val]
    by (simp add: valid_image_def length_written_pixels)
  with enc show ?thesis by simp
qed

theorem encoder_failures_unreachable_witness:
  "valid_image sample_2x3
 \<and> capacity_check (width sample_2x3) (height sample_2x3) (length [65 :: nat]) = Inr ()
 \<and> encrypt_image sample_2x3 [65] \<noteq> Inl TooSmallToEncode
 \<and> encrypt_image sample_2x3 [65] \<noteq> Inl TooSmallForMessage
 \<and> (\<exists>G'. encrypt_image sample_2x3 [65] = Inr G' \<and> valid_image G')"
proof -
  have h1: "valid_image sample_2x3" by code_simp
  have h2: "capacity_check (width sample_2x3) (height sample_2x3) (length [65 :: nat]) = Inr ()"
    by code_simp
  show ?thesis using encoder_failures_unreachable[OF h1 h2] h1 h2 by blast
qed

end
